theory Spec2Isabelle
  imports Complex_Main
begin

section \<open>The recurrent-memory wrapper of \<open>modeling_rmt.py\<close>\<close>

text \<open>
  A shallow embedding of \<open>RMTEncoderForSequenceClassification\<close>. A one-dimensional tensor of
  token ids is an \<open>int list\<close>, a batch is a list of rows, an exception is a value \<open>Inl e\<close> of
  the sum type \<open>error + 'a\<close>. The functions of the \<open>torch\<close> library that the class calls
  (\<open>chunk\<close>, \<open>stack\<close>, \<open>F.pad\<close>, slicing, masked indexing) are written out after the library's
  documented behaviour, each next to the place where the source calls it.
\<close>

subsection \<open>Errors and configuration\<close>

datatype error =
    ZeroDivisionError    \<comment> \<open>\<open>len(seq) / self.segment_size\<close> with a zero segment size\<close>
  | ChunkError           \<comment> \<open>\<open>torch.chunk\<close>: "chunk expects `chunks` to be greater than 0"\<close>
  | StackTypeError       \<comment> \<open>\<open>torch.stack\<close>: "expected Tensor as element i, but got NoneType"\<close>
  | StackShapeError      \<comment> \<open>\<open>torch.stack\<close>: the tensors differ in size\<close>
  | StackEmptyError      \<comment> \<open>\<open>torch.stack\<close>: "stack expects a non-empty TensorList"\<close>
  | IndexError           \<comment> \<open>an index or a mask that does not fit the indexed dimension\<close>
  | ShapeError           \<comment> \<open>a masked assignment whose value does not fit the selection\<close>
  | UnboundLocalError    \<comment> \<open>\<open>out\<close> is read although no slot assigned it\<close>

text \<open>
  The attributes \<open>set_params\<close>, \<open>extract_special_tokens\<close> and \<open>extend_word_embeddings\<close> store.
  \<open>num_mem_tokens\<close> and \<open>vocab_size\<close> are naturals: \<open>vocab_size\<close> is a tensor dimension, and
  \<open>torch.arange(vocab_size, vocab_size + num_mem_tokens)\<close> rejects a negative count when the
  wrapper is built. The entries of \<open>rmt_config\<close> are Python integers.
\<close>

record rmt =
  num_mem_tokens :: nat
  vocab_size :: nat
  pad_token_id :: int
  cls_token :: int
  sep_token :: int
  input_size :: int
  max_n_segments :: int
  bptt_depth :: int
  sum_loss :: bool

definition segment_size :: "rmt \<Rightarrow> int" where
  "segment_size r = input_size r - int (num_mem_tokens r) - 3"

definition mem_token_ids :: "rmt \<Rightarrow> int list" where
  "mem_token_ids r = map int [vocab_size r ..< vocab_size r + num_mem_tokens r]"

definition memory_position :: "rmt \<Rightarrow> nat list" where
  "memory_position r = [1 ..< 1 + num_mem_tokens r]"

subsection \<open>Library operations used by the segmentation\<close>

text \<open>Python's \<open>seq[:k]\<close>: a negative \<open>k\<close> counts from the end, and nothing is out of range.\<close>

definition slice_to :: "int \<Rightarrow> 'a list \<Rightarrow> 'a list" where
  "slice_to k xs = (if 0 \<le> k then take (nat k) xs else take (length xs - nat (- k)) xs)"

text \<open>
  \<open>math.ceil(a / b)\<close> for integers \<open>a\<close> and \<open>b \<noteq> 0\<close>, read exactly (the quotient of two
  sequence lengths is far below the range where a float division loses precision).
\<close>

definition ceil_div :: "int \<Rightarrow> int \<Rightarrow> int" where
  "ceil_div a b = - ((- a) div b)"

text \<open>
  \<open>torch.split(xs, k)\<close> for \<open>k > 0\<close>: \<open>max (ceil (len / k)) 1\<close> pieces, piece \<open>i\<close> being
  \<open>xs[i*k : i*k + k]\<close>, so that only the last one can be shorter.
\<close>

definition torch_split :: "'a list \<Rightarrow> nat \<Rightarrow> 'a list list" where
  "torch_split xs k =
     map (\<lambda>i. take k (drop (i * k) xs)) [0 ..< max ((length xs + k - 1) div k) 1]"

text \<open>
  \<open>torch.chunk(xs, chunks)\<close>: refuses \<open>chunks \<le> 0\<close>; otherwise splits into pieces of size
  \<open>ceil (len / chunks)\<close>, which can give fewer than \<open>chunks\<close> pieces; an empty tensor gives
  \<open>chunks\<close> empty pieces.
\<close>

definition torch_chunk :: "'a list \<Rightarrow> int \<Rightarrow> error + 'a list list" where
  "torch_chunk xs chunks =
     (if chunks \<le> 0 then Inl ChunkError
      else let split_size = (int (length xs) + chunks - 1) div chunks
           in if split_size = 0 \<and> length xs = 0 then Inr (replicate (nat chunks) [])
              else Inr (torch_split xs (nat split_size)))"

subsection \<open>Segment assembly\<close>

text \<open>
  \<open>pad_add_special_tokens\<close>: concatenates CLS, the memory token ids, SEP, the chunk and SEP,
  and, when that is shorter than the requested width, appends \<open>F.pad(tensor, (0, pad_size))\<close>,
  whose fill value is the library's default \<open>0\<close>.
\<close>

definition pad_add_special_tokens :: "rmt \<Rightarrow> int list \<Rightarrow> int \<Rightarrow> int list" where
  "pad_add_special_tokens r tensor width =
     (let t = [cls_token r] @ mem_token_ids r @ [sep_token r] @ tensor @ [sep_token r];
          pad_size = width - int (length t)
      in if pad_size > 0 then t @ replicate (nat pad_size) 0 else t)"

text \<open>\<open>get_attention_mask\<close>: ones, with zero wherever the token is \<open>pad_token_id\<close>.\<close>

definition get_attention_mask :: "rmt \<Rightarrow> int list list \<Rightarrow> int list list" where
  "get_attention_mask r tensor = map (map (\<lambda>t. if t = pad_token_id r then 0 else 1)) tensor"

definition get_token_type_ids :: "int list list \<Rightarrow> int list list" where
  "get_token_type_ids tensor = map (map (\<lambda>t. 0)) tensor"

subsection \<open>Segmentation\<close>

text \<open>Line 101: every occurrence of the pad, CLS and SEP ids is removed.\<close>

definition strip_special :: "rmt \<Rightarrow> int list \<Rightarrow> int list" where
  "strip_special r seq =
     filter (\<lambda>t. t \<noteq> pad_token_id r \<and> t \<noteq> cls_token r \<and> t \<noteq> sep_token r) seq"

text \<open>Lines 101 to 105: the chunks of one row, before they are wrapped.\<close>

definition chunk_sequence :: "rmt \<Rightarrow> int list \<Rightarrow> error + int list list" where
  "chunk_sequence r seq0 =
     (let seq1 = strip_special r seq0;
          seq = slice_to (segment_size r * max_n_segments r) seq1
      in if segment_size r = 0 then Inl ZeroDivisionError
         else torch_chunk seq (ceil_div (int (length seq)) (segment_size r)))"

text \<open>The body of the loop over the rows (lines 101 to 108).\<close>

definition segment_sequence :: "rmt \<Rightarrow> int list \<Rightarrow> error + int list list" where
  "segment_sequence r seq0 =
     (case chunk_sequence r seq0 of
        Inl e \<Rightarrow> Inl e
      | Inr input_segments \<Rightarrow>
          Inr (map (\<lambda>t. pad_add_special_tokens r t (input_size r)) input_segments))"

text \<open>The loop over the rows: the first row that raises ends the call.\<close>

fun segment_rows :: "rmt \<Rightarrow> int list list \<Rightarrow> error + int list list list" where
  "segment_rows r [] = Inr []"
| "segment_rows r (seq # rest) =
     (case segment_sequence r seq of
        Inl e \<Rightarrow> Inl e
      | Inr segs \<Rightarrow>
          (case segment_rows r rest of
             Inl e \<Rightarrow> Inl e
           | Inr others \<Rightarrow> Inr (segs # others)))"

text \<open>
  Lines 113 and 114: for \<open>i\<close> in \<open>range(max_n_segments)\<close> the entry of row \<open>s\<close> is
  \<open>s[::-1][i]\<close> when \<open>len(s) > i\<close> and \<open>None\<close> otherwise; the list of slots is then reversed.
\<close>

definition right_align :: "int \<Rightarrow> 'a list list \<Rightarrow> 'a option list list" where
  "right_align n segmented_batch =
     rev (map (\<lambda>i. map (\<lambda>s. if length s > i then Some (rev s ! i) else None) segmented_batch)
              [0 ..< nat n])"

definition pad_and_segment :: "rmt \<Rightarrow> int list list \<Rightarrow> error + int list option list list" where
  "pad_and_segment r input_ids =
     (case segment_rows r input_ids of
        Inl e \<Rightarrow> Inl e
      | Inr segmented_batch \<Rightarrow> Inr (right_align (max_n_segments r) segmented_batch))"

subsection \<open>Reading a segmented batch\<close>

text \<open>
  The content portion of an assembled segment: what stands after the prefix
  \<open>[CLS, mem ids, SEP]\<close> (of length \<open>num_mem_tokens + 2\<close>) and before the closing SEP. The
  trailing padding comes after that SEP and is left out.
\<close>

definition content_portion :: "rmt \<Rightarrow> int list \<Rightarrow> int list" where
  "content_portion r seg = takeWhile (\<lambda>t. t \<noteq> sep_token r) (drop (num_mem_tokens r + 2) seg)"

text \<open>The entries of row \<open>b\<close> of the batch, one per slot, in slot order.\<close>

definition sequence_slots :: "'a option list list \<Rightarrow> nat \<Rightarrow> 'a option list" where
  "sequence_slots slots b = map (\<lambda>slot. slot ! b) slots"

text \<open>The segments of the slots that are not \<open>None\<close>, in order.\<close>

definition present :: "'a option list \<Rightarrow> 'a list" where
  "present xs = concat (map (\<lambda>x. case x of None \<Rightarrow> [] | Some s \<Rightarrow> [s]) xs)"

text \<open>
  The direct index arithmetic the specification gives for the right alignment: slot \<open>i\<close> of a
  row with \<open>n_seg\<close> chunks is populated iff \<open>i \<ge> max_n_segments - n_seg\<close> and then holds
  chunk \<open>i - (max_n_segments - n_seg)\<close>. It is compared below with \<open>right_align\<close>, which
  follows the source.
\<close>

definition right_align_spec :: "int \<Rightarrow> 'a list list \<Rightarrow> 'a option list list" where
  "right_align_spec n segmented_batch =
     map (\<lambda>i. map (\<lambda>s. if int i \<ge> n - int (length s)
                         then Some (s ! nat (int i - (n - int (length s))))
                         else None) segmented_batch)
         [0 ..< nat n]"

subsection \<open>Library operations used by the forward pass\<close>

text \<open>
  \<open>torch.stack\<close> of a Python list: every element must be a tensor (an entry \<open>None\<close> is a
  \<open>TypeError\<close>), the list must not be empty and the tensors must have one size.
\<close>

definition torch_stack :: "'x list option list \<Rightarrow> error + 'x list list" where
  "torch_stack ts =
     (if ts = [] then Inl StackEmptyError
      else if None \<in> set ts then Inl StackTypeError
      else let rows = map the ts
           in if list_all (\<lambda>row. length row = length (hd rows)) rows then Inr rows
              else Inl StackShapeError)"

text \<open>Indexing the first dimension with a list of booleans of the same length.\<close>

definition masked_select :: "bool list \<Rightarrow> 'x list \<Rightarrow> error + 'x list" where
  "masked_select keep xs =
     (if length keep \<noteq> length xs then Inl IndexError
      else Inr (map snd (filter fst (zip keep xs))))"

text \<open>
  \<open>tensor[keep] = vals\<close>: the selected rows are overwritten in order, the other rows stay. The
  value must have the shape of the selection (the hidden states of the encoder have the shape
  of its input, so no broadcasting is modelled).
\<close>

fun scatter :: "bool list \<Rightarrow> 'x list \<Rightarrow> 'x list \<Rightarrow> 'x list" where
  "scatter (True # keep) (x # xs) (v # vs) = v # scatter keep xs vs"
| "scatter (False # keep) (x # xs) vs = x # scatter keep xs vs"
| "scatter keep xs vs = xs"

definition masked_assign ::
  "bool list \<Rightarrow> 'x list list list \<Rightarrow> 'x list list list \<Rightarrow> error + 'x list list list" where
  "masked_assign keep tensor vals =
     (case masked_select keep tensor of
        Inl e \<Rightarrow> Inl e
      | Inr selected \<Rightarrow>
          if map (map length) vals = map (map length) selected
          then Inr (scatter keep tensor vals) else Inl ShapeError)"

text \<open>\<open>rows[:, ps]\<close> with a list of positions \<open>ps\<close>; a position out of range is an \<open>IndexError\<close>.\<close>

definition select_positions :: "nat list \<Rightarrow> 'x list list \<Rightarrow> error + 'x list list" where
  "select_positions ps rows =
     (if list_all (\<lambda>row. list_all (\<lambda>p. p < length row) ps) rows
      then Inr (map (\<lambda>row. map (\<lambda>p. row ! p) ps) rows) else Inl IndexError)"

text \<open>\<open>rows[:, ps] = vals\<close>: in every row the entries at the positions \<open>ps\<close> are overwritten.\<close>

definition assign_positions ::
  "nat list \<Rightarrow> 'x list list list \<Rightarrow> 'x list list list \<Rightarrow> error + 'x list list list" where
  "assign_positions ps rows vals =
     (if \<not> list_all (\<lambda>row. list_all (\<lambda>p. p < length row) ps) rows then Inl IndexError
      else if map (map length) vals \<noteq> map (\<lambda>row. map (\<lambda>p. length (row ! p)) ps) rows
      then Inl ShapeError
      else Inr (map (\<lambda>(row, v). fold (\<lambda>(p, x) acc. acc[p := x]) (zip ps v) row) (zip rows vals)))"

subsection \<open>The forward pass\<close>

text \<open>
  The base encoder is external. It is a parameter \<open>model_forward\<close> of the model, taking
  \<open>inputs_embeds\<close>, \<open>attention_mask\<close>, \<open>token_type_ids\<close> and \<open>labels\<close> (the other keyword
  arguments are the same at every call) and returning its output: the loss, the last layer
  of hidden states (\<open>out.hidden_states[-1]\<close>) and the remaining fields (\<open>logits\<close> and so
  on). The embedding table is a function from token ids to vectors; the scalars of vectors
  are of any type \<open>'a\<close>. A loss is a tensor of a floating-point type: its type \<open>'l\<close> is a
  parameter too, and nothing is assumed of its shape or of its arithmetic.
\<close>

record ('a, 'l, 'o) model_output =
  loss :: 'l
  hidden_states :: "'a list list list"
  rest :: 'o

type_synonym ('a, 'lab, 'l, 'o) base_model =
  "'a list list list \<Rightarrow> int list list \<Rightarrow> int list list \<Rightarrow> 'lab list \<Rightarrow> ('a, 'l, 'o) model_output"

text \<open>
  The local variables of \<open>__call__\<close> that the loop updates: \<open>memory\<close>, \<open>losses\<close> and \<open>out\<close>
  (unbound until a slot is processed). Two more fields record what the loop did and are read
  by the theorems only: the slot numbers at which \<open>memory.detach()\<close> ran, and the slot number
  and result of every call of the encoder.
\<close>

record ('a, 'l, 'o) loop_state =
  memory :: "'a list list list"
  losses :: "'l list"
  out :: "('a, 'l, 'o) model_output option"
  detached :: "nat list"
  calls :: "(nat \<times> ('a, 'l, 'o) model_output) list"

text \<open>
  The returned \<open>out\<close>: the field \<open>loss\<close>, the fields \<open>loss_0\<close>, \<open>loss_1\<close>, ... as a map from
  the index to the value, the hidden states (\<open>None\<close> when they were dropped) and the rest.
\<close>

record ('a, 'l, 'o) rmt_output =
  out_loss :: 'l
  out_loss_i :: "nat \<rightharpoonup> 'l"
  out_hidden_states :: "'a list list list option"
  out_rest :: 'o

text \<open>Lines 48 and 49: the embeddings of the memory tokens, repeated for every row.\<close>

definition set_memory :: "rmt \<Rightarrow> (int \<Rightarrow> 'a list) \<Rightarrow> 'a list list" where
  "set_memory r embeddings = map embeddings (mem_token_ids r)"

definition init_state :: "rmt \<Rightarrow> (int \<Rightarrow> 'a list) \<Rightarrow> nat \<Rightarrow> ('a, 'l, 'o) loop_state" where
  "init_state r embeddings batch_size =
     \<lparr>memory = replicate batch_size (set_memory r embeddings), losses = [], out = None,
      detached = [], calls = []\<rparr>"

text \<open>The condition of line 54.\<close>

definition detach_now :: "rmt \<Rightarrow> nat \<Rightarrow> nat \<Rightarrow> bool" where
  "detach_now r n_slots seg_num \<longleftrightarrow>
     bptt_depth r > - 1 \<and> int n_slots - int seg_num > bptt_depth r"

text \<open>The body of the loop over the slots (lines 54 to 78).\<close>

definition seg_step ::
  "rmt \<Rightarrow> (int \<Rightarrow> 'a list) \<Rightarrow> ('a, 'lab, 'l, 'o) base_model \<Rightarrow> 'lab list \<Rightarrow> nat \<Rightarrow> nat \<Rightarrow>
   ('a, 'l, 'o) loop_state \<Rightarrow> int list option list \<Rightarrow> error + ('a, 'l, 'o) loop_state" where
  "seg_step r embeddings model_forward labels n_slots seg_num st0 segment_input_ids =
     (let st = (if detach_now r n_slots seg_num
                then st0\<lparr>detached := detached st0 @ [seg_num]\<rparr> else st0);
          non_empty_mask = map (\<lambda>s. s \<noteq> None) segment_input_ids
      in if length (filter id non_empty_mask) = 0 then Inr st
         else
           case torch_stack segment_input_ids of Inl e \<Rightarrow> Inl e | Inr stacked \<Rightarrow>
           case masked_select non_empty_mask stacked of Inl e \<Rightarrow> Inl e | Inr input_ids \<Rightarrow>
           case masked_select non_empty_mask labels of Inl e \<Rightarrow> Inl e | Inr seg_labels \<Rightarrow>
           case masked_select non_empty_mask (memory st) of Inl e \<Rightarrow> Inl e | Inr active \<Rightarrow>
           case assign_positions (memory_position r) (map (map embeddings) input_ids) active of
             Inl e \<Rightarrow> Inl e | Inr inputs_embeds \<Rightarrow>
           let res = model_forward inputs_embeds (get_attention_mask r input_ids)
                       (get_token_type_ids input_ids) seg_labels
           in case select_positions (memory_position r) (hidden_states res) of
                Inl e \<Rightarrow> Inl e | Inr new_memory \<Rightarrow>
              case masked_assign non_empty_mask (memory st) new_memory of
                Inl e \<Rightarrow> Inl e | Inr memory' \<Rightarrow>
              Inr (st\<lparr>memory := memory', losses := losses st @ [loss res], out := Some res,
                      calls := calls st @ [(seg_num, res)]\<rparr>))"

text \<open>The loop over \<open>enumerate(segmented)\<close>; the first slot that raises ends the call.\<close>

fun run_segments ::
  "rmt \<Rightarrow> (int \<Rightarrow> 'a list) \<Rightarrow> ('a, 'lab, 'l, 'o) base_model \<Rightarrow> 'lab list \<Rightarrow> nat \<Rightarrow> nat \<Rightarrow>
   ('a, 'l, 'o) loop_state \<Rightarrow> int list option list list \<Rightarrow> error + ('a, 'l, 'o) loop_state" where
  "run_segments r embeddings model_forward labels n_slots seg_num st [] = Inr st"
| "run_segments r embeddings model_forward labels n_slots seg_num st (slot # rest_slots) =
     (case seg_step r embeddings model_forward labels n_slots seg_num st slot of
        Inl e \<Rightarrow> Inl e
      | Inr st' \<Rightarrow>
          run_segments r embeddings model_forward labels n_slots (Suc seg_num) st' rest_slots)"

text \<open>
  The two library operations the wrapper applies to the losses, as they compute in the
  floating-point type of the losses: \<open>l.mean()\<close> and, for a non-empty list,
  \<open>torch.stack(ls).sum(dim=0)\<close>. They are parameters of the model.
\<close>

record 'l tensor_ops =
  tensor_mean :: "'l \<Rightarrow> 'l"
  stack_sum :: "'l list \<Rightarrow> 'l"

text \<open>Lines 86 and 87: \<open>out[f'loss_{i}'] = l.mean()\<close> for \<open>i, l\<close> in \<open>enumerate(losses)\<close>.\<close>

definition loss_fields :: "'l tensor_ops \<Rightarrow> 'l list \<Rightarrow> (nat \<rightharpoonup> 'l)" where
  "loss_fields ops ls =
     fold (\<lambda>(i, l) fields. fields(i \<mapsto> tensor_mean ops l)) (enumerate 0 ls) Map.empty"

text \<open>
  Lines 80 to 95. When no slot was processed \<open>out\<close> is unbound: reading it raises, and
  \<open>torch.stack\<close> of the empty list of losses raises before \<open>return out\<close> is reached.
\<close>

definition finalize ::
  "rmt \<Rightarrow> 'l tensor_ops \<Rightarrow> bool \<Rightarrow> ('a, 'l, 'o) loop_state \<Rightarrow> error + ('a, 'l, 'o) rmt_output" where
  "finalize r ops output_hidden_states st =
     (if \<not> output_hidden_states \<and> out st = None then Inl UnboundLocalError
      else if losses st \<noteq> [] \<and> out st = None then Inl UnboundLocalError
      else if sum_loss r \<and> losses st = [] then Inl StackEmptyError
      else case out st of
             None \<Rightarrow> Inl UnboundLocalError
           | Some res \<Rightarrow>
               Inr \<lparr>out_loss = (if sum_loss r then stack_sum ops (losses st) else loss res),
                    out_loss_i = loss_fields ops (losses st),
                    out_hidden_states =
                      (if output_hidden_states then Some (hidden_states res) else None),
                    out_rest = rest res\<rparr>)"

text \<open>Lines 48 to 78: the state in which the loop ends.\<close>

definition run_forward ::
  "rmt \<Rightarrow> (int \<Rightarrow> 'a list) \<Rightarrow> ('a, 'lab, 'l, 'o) base_model \<Rightarrow> int list list \<Rightarrow> 'lab list \<Rightarrow>
   error + ('a, 'l, 'o) loop_state" where
  "run_forward r embeddings model_forward input_ids labels =
     (case pad_and_segment r input_ids of
        Inl e \<Rightarrow> Inl e
      | Inr segmented \<Rightarrow>
          run_segments r embeddings model_forward labels (length segmented) 0
            (init_state r embeddings (length input_ids)) segmented)"

text \<open>
  \<open>__call__\<close>, with \<open>kwargs['labels']\<close> (which line 66 requires) and
  \<open>kwargs.get('output_hidden_states')\<close> as the last two arguments, and the operations on
  the losses as the second.
\<close>

definition forward ::
  "rmt \<Rightarrow> 'l tensor_ops \<Rightarrow> (int \<Rightarrow> 'a list) \<Rightarrow> ('a, 'lab, 'l, 'o) base_model \<Rightarrow>
   int list list \<Rightarrow> 'lab list \<Rightarrow> bool \<Rightarrow> error + ('a, 'l, 'o) rmt_output" where
  "forward r ops embeddings model_forward input_ids labels output_hidden_states =
     (case run_forward r embeddings model_forward input_ids labels of
        Inl e \<Rightarrow> Inl e
      | Inr st \<Rightarrow> finalize r ops output_hidden_states st)"

subsection \<open>Concrete inputs\<close>

text \<open>
  A small embedding table and encoder to run the forward pass on: the loss of a call is a
  zero-dimensional tensor holding the id of the first content token of its first row. On
  such a tensor \<open>mean()\<close> is the tensor itself, and the sum of a few small whole numbers is
  exact in every floating-point type, so the operations of \<open>toy_ops\<close> are what the library
  computes on these losses.
\<close>

definition toy_ops :: "real tensor_ops" where
  "toy_ops = \<lparr>tensor_mean = (\<lambda>l. l), stack_sum = sum_list\<rparr>"

definition toy_embeddings :: "int \<Rightarrow> int list" where
  "toy_embeddings t = [t, 2 * t]"

definition toy_model :: "(int, int, real, unit) base_model" where
  "toy_model inputs_embeds attention_mask token_type_ids labels =
     \<lparr>loss = of_int (hd (inputs_embeds ! 0 ! 4)),
      hidden_states = map (map (map (\<lambda>x. x + 1))) inputs_embeds,
      rest = ()\<rparr>"

definition row_C :: "int list" where
  "row_C = [101, 1, 1, 1, 1, 1, 2, 2, 2, 2, 2, 3, 3, 3, 3, 3, 102]"

definition row_D :: "int list" where
  "row_D = [101, 1, 4, 4, 4, 4, 2, 5, 5, 5, 5, 3, 6, 6, 6, 6, 102]"

text \<open>
  The scenario of the specification: \<open>segment_size = 10 - 2 - 3 = 5\<close>, three slots, a row
  with 12 content tokens, a row with 3, and a row with none.
\<close>

definition scenario_cfg :: rmt where
  "scenario_cfg = \<lparr>num_mem_tokens = 2, vocab_size = 200, pad_token_id = 0, cls_token = 101,
     sep_token = 102, input_size = 10, max_n_segments = 3, bptt_depth = - 1, sum_loss = True\<rparr>"

definition row_A :: "int list" where
  "row_A = [101, 11, 12, 13, 14, 15, 16, 17, 18, 19, 20, 21, 22, 102]"

definition row_B :: "int list" where
  "row_B = [101, 31, 32, 33, 102, 0, 0, 0, 0, 0, 0, 0, 0, 0]"

definition row_empty :: "int list" where
  "row_empty = [101, 102, 0, 0, 0, 0, 0, 0, 0, 0, 0, 0, 0, 0]"

text \<open>What \<open>pad_and_segment\<close> returns for the batch of \<open>row_A\<close> and \<open>row_B\<close>.\<close>

definition scenario_slots :: "int list option list list" where
  "scenario_slots =
     [[Some [101, 200, 201, 102, 11, 12, 13, 14, 102, 0], None],
      [Some [101, 200, 201, 102, 15, 16, 17, 18, 102, 0], None],
      [Some [101, 200, 201, 102, 19, 20, 21, 22, 102, 0],
       Some [101, 200, 201, 102, 31, 32, 33, 102, 0, 0]]]"

text \<open>A tokenizer whose pad id is not zero (the ids of RoBERTa: CLS 0, pad 1, SEP 2).\<close>

definition roberta_cfg :: rmt where
  "roberta_cfg = \<lparr>num_mem_tokens = 2, vocab_size = 200, pad_token_id = 1, cls_token = 0,
     sep_token = 2, input_size = 10, max_n_segments = 3, bptt_depth = - 1, sum_loss = True\<rparr>"

subsection \<open>Reading the state of the loop\<close>

text \<open>The losses the encoder returned, call by call.\<close>

definition call_losses :: "('a, 'l, 'o) loop_state \<Rightarrow> 'l list" where
  "call_losses st = map (\<lambda>c. loss (snd c)) (calls st)"

text \<open>The slot numbers at which the encoder was called, in the order of the calls.\<close>

definition called_slots :: "('a, 'l, 'o) loop_state \<Rightarrow> nat list" where
  "called_slots st = map fst (calls st)"

text \<open>The slots of a segmented batch in which at least one row has a segment.\<close>

definition processed_slots :: "'x option list list \<Rightarrow> nat list" where
  "processed_slots segmented =
     filter (\<lambda>i. \<not> list_all (\<lambda>s. s = None) (segmented ! i)) [0 ..< length segmented]"

text \<open>The field \<open>loss_i\<close> of what a call returns, \<open>None\<close> when the output has no such field.\<close>

definition loss_field :: "error + ('a, 'l, 'o) rmt_output \<Rightarrow> nat \<Rightarrow> error + 'l option" where
  "loss_field result i = map_sum id (\<lambda>res. out_loss_i res i) result"

text \<open>
  How the variables \<open>losses\<close> and \<open>out\<close> relate to the calls of the encoder: one loss per
  call, and \<open>out\<close> is the result of the last call.
\<close>

definition consistent :: "('a, 'l, 'o) loop_state \<Rightarrow> bool" where
  "consistent st \<longleftrightarrow>
     losses st = map (\<lambda>c. loss (snd c)) (calls st) \<and>
     out st = (if calls st = [] then None else Some (snd (last (calls st))))"

section \<open>Arithmetic of the chunking\<close>

lemma concat_pieces: "concat (map (\<lambda>i. take k (drop (i * k) xs)) [0 ..< n]) = take (n * k) xs"
proof (induction n)
  case 0
  show ?case by simp
next
  case (Suc n)
  have "take (n * k) xs @ take k (drop (n * k) xs) = take (n * k + k) xs"
    by (simp add: take_add)
  with Suc show ?case by (simp add: add.commute)
qed

lemma cdiv_le_iff:
  fixes a b m :: nat
  assumes "0 < b"
  shows "(a + b - 1) div b \<le> m \<longleftrightarrow> a \<le> m * b"
proof -
  have "(a + b - 1) div b \<le> m \<longleftrightarrow> (a + b - 1) div b < Suc m" by auto
  also have "\<dots> \<longleftrightarrow> a + b - 1 < Suc m * b"
    using assms by (simp only: div_less_iff_less_mult)
  also have "\<dots> \<longleftrightarrow> a \<le> m * b" using assms by auto
  finally show ?thesis .
qed

lemma cdiv_cover: "0 < b \<Longrightarrow> a \<le> (a + b - 1) div b * (b::nat)"
  using cdiv_le_iff [of b a "(a + b - 1) div b"] by simp

lemma cdiv_pos: "0 < b \<Longrightarrow> 0 < a \<Longrightarrow> 0 < (a + b - 1) div (b::nat)"
  using cdiv_le_iff [of b a 0] by auto

lemma torch_split_concat: "0 < k \<Longrightarrow> concat (torch_split xs k) = xs"
proof -
  assume k: "0 < k"
  have "length xs \<le> (length xs + k - 1) div k * k" using k by (rule cdiv_cover)
  also have "\<dots> \<le> max ((length xs + k - 1) div k) 1 * k" by (simp add: max_def)
  finally show ?thesis unfolding torch_split_def concat_pieces by simp
qed

lemma torch_split_length: "length (torch_split xs k) = max ((length xs + k - 1) div k) 1"
  by (simp add: torch_split_def)

lemma torch_split_piece_le: "c \<in> set (torch_split xs k) \<Longrightarrow> length c \<le> k"
  by (auto simp: torch_split_def)

lemma torch_split_piece_set: "c \<in> set (torch_split xs k) \<Longrightarrow> set c \<subseteq> set xs"
  by (auto simp: torch_split_def dest: in_set_takeD in_set_dropD)

lemma chunk_count:
  fixes L S :: nat
  assumes S: "0 < S" and L: "0 < L"
  defines "n \<equiv> (L + S - 1) div S"
  defines "c \<equiv> (L + n - 1) div n"
  shows "0 < n" and "0 < c" and "c \<le> S" and "(L + c - 1) div c = n"
proof -
  show n: "0 < n" unfolding n_def using S L by (rule cdiv_pos)
  show c: "0 < c" unfolding c_def using n L by (rule cdiv_pos)
  have "L \<le> n * S" unfolding n_def using S by (rule cdiv_cover)
  then have "L \<le> S * n" by (simp add: mult.commute)
  then show cS: "c \<le> S" unfolding c_def using cdiv_le_iff [OF n, of L S] by simp
  have "L \<le> c * n" unfolding c_def using cdiv_cover [OF n, of L] .
  then have "L \<le> n * c" by (simp add: mult.commute)
  then have le: "(L + c - 1) div c \<le> n" using cdiv_le_iff [OF c, of L n] by simp
  have "L \<le> (L + c - 1) div c * c" using c by (rule cdiv_cover)
  also have "\<dots> \<le> (L + c - 1) div c * S" using cS by simp
  finally have "n \<le> (L + c - 1) div c"
    unfolding n_def using cdiv_le_iff [OF S, of L "(L + c - 1) div c"] by simp
  with le show "(L + c - 1) div c = n" by simp
qed

lemma cdiv_cases:
  fixes L S :: nat
  assumes "0 < S"
  shows "(L + S - 1) div S = (if L mod S = 0 then L div S else L div S + 1)"
proof -
  define q r where "q = L div S" and "r = L mod S"
  have L: "L = q * S + r" and r: "r < S"
    using assms by (auto simp: q_def r_def)
  show ?thesis
  proof (cases "r = 0")
    case True
    have "(q * S + r + S - 1) div S = q"
      by (rule div_nat_eqI) (use assms True in \<open>auto simp: algebra_simps\<close>)
    then have "(L + S - 1) div S = q" by (simp only: L)
    moreover have "L mod S = 0" using True unfolding r_def .
    ultimately show ?thesis by (simp add: q_def)
  next
    case False
    have "(q * S + r + S - 1) div S = Suc q"
      by (rule div_nat_eqI) (use r False in \<open>auto simp: algebra_simps\<close>)
    then have "(L + S - 1) div S = Suc q" by (simp only: L)
    moreover have "L mod S \<noteq> 0" using False unfolding r_def .
    ultimately show ?thesis by (simp add: q_def)
  qed
qed

lemma ceil_div_nat:
  assumes "0 < S"
  shows "ceil_div (int L) (int S) = int ((L + S - 1) div S)"
proof -
  have S0: "int S \<noteq> 0" using assms by simp
  have "ceil_div (int L) (int S) =
      (if int L mod int S = 0 then int L div int S else int L div int S + 1)"
    unfolding ceil_div_def zdiv_zminus1_eq_if [OF S0] by simp
  also have "\<dots> = int (if L mod S = 0 then L div S else L div S + 1)"
  proof -
    have "int (L mod S) = 0 \<longleftrightarrow> L mod S = 0" by (rule of_nat_eq_0_iff)
    then have m: "int L mod int S = 0 \<longleftrightarrow> L mod S = 0" by (simp only: of_nat_mod)
    show ?thesis by (simp add: m of_nat_div)
  qed
  also have "\<dots> = int ((L + S - 1) div S)" using cdiv_cases [OF assms, of L] by simp
  finally show ?thesis .
qed

section \<open>Right alignment\<close>

lemma right_align_refines: "right_align n sb = right_align_spec n sb"
proof (rule nth_equalityI)
  show "length (right_align n sb) = length (right_align_spec n sb)"
    by (simp add: right_align_def right_align_spec_def)
next
  fix j assume "j < length (right_align n sb)"
  then have j: "j < nat n" by (simp add: right_align_def)
  have idx: "nat n - Suc j < nat n" using j by simp
  have "right_align n sb ! j =
      map (\<lambda>s. if length s > nat n - Suc j then Some (rev s ! (nat n - Suc j)) else None) sb"
    using j idx by (simp add: right_align_def rev_nth)
  also have "\<dots> = map (\<lambda>s. if int j \<ge> n - int (length s)
                         then Some (s ! nat (int j - (n - int (length s))))
                         else None) sb"
  proof (rule map_cong [OF refl])
    fix s assume "s \<in> set sb"
    show "(if length s > nat n - Suc j then Some (rev s ! (nat n - Suc j)) else None) =
          (if int j \<ge> n - int (length s) then Some (s ! nat (int j - (n - int (length s)))) else None)"
    proof (cases "length s > nat n - Suc j")
      case True
      then have c: "int j \<ge> n - int (length s)" using j by linarith
      have "length s - Suc (nat n - Suc j) = nat (int j - (n - int (length s)))"
        using True j by linarith
      with True c show ?thesis by (simp add: rev_nth)
    next
      case False
      then have "\<not> int j \<ge> n - int (length s)" using j by linarith
      with False show ?thesis by simp
    qed
  qed
  also have "\<dots> = right_align_spec n sb ! j"
    using j by (simp add: right_align_spec_def)
  finally show "right_align n sb ! j = right_align_spec n sb ! j" .
qed

lemma present_replicate_Some: "present (replicate k None @ map Some xs) = xs"
  by (induction k) (simp_all add: present_def map_idI comp_def)

lemma column_right_align:
  assumes "b < length sb"
  shows "sequence_slots (right_align n sb) b =
         replicate (nat n - length (sb ! b)) None @
         map Some (drop (length (sb ! b) - nat n) (sb ! b))"
proof (rule nth_equalityI)
  show "length (sequence_slots (right_align n sb) b) =
        length (replicate (nat n - length (sb ! b)) None @
                map Some (drop (length (sb ! b) - nat n) (sb ! b)))"
    by (simp add: sequence_slots_def right_align_refines right_align_spec_def)
next
  fix j assume "j < length (sequence_slots (right_align n sb) b)"
  then have j: "j < nat n"
    by (simp add: sequence_slots_def right_align_refines right_align_spec_def)
  let ?s = "sb ! b"
  have l: "sequence_slots (right_align n sb) b ! j =
     (if int j \<ge> n - int (length ?s) then Some (?s ! nat (int j - (n - int (length ?s)))) else None)"
    using j assms by (simp add: sequence_slots_def right_align_refines right_align_spec_def)
  show "sequence_slots (right_align n sb) b ! j =
        (replicate (nat n - length ?s) None @ map Some (drop (length ?s - nat n) ?s)) ! j"
  proof (cases "int j \<ge> n - int (length ?s)")
    case True
    then have a: "\<not> j < nat n - length ?s" using j by linarith
    have b: "j - (nat n - length ?s) < length ?s - (length ?s - nat n)" using True j by linarith
    have c: "length ?s - nat n + (j - (nat n - length ?s)) = nat (int j - (n - int (length ?s)))"
      using True j by linarith
    show ?thesis using True a b c by (simp add: l nth_append)
  next
    case False
    then have "j < nat n - length ?s" using j by linarith
    with False show ?thesis by (simp add: l nth_append)
  qed
qed

lemma present_column:
  "b < length sb \<Longrightarrow>
   present (sequence_slots (right_align n sb) b) = drop (length (sb ! b) - nat n) (sb ! b)"
  by (simp add: column_right_align present_replicate_Some)

section \<open>Segmentation\<close>

lemma length_mem_token_ids: "length (mem_token_ids r) = num_mem_tokens r"
  by (simp add: mem_token_ids_def)

lemma content_portion_wrap:
  assumes "sep_token r \<notin> set t"
  shows "content_portion r (pad_add_special_tokens r t w) = t"
proof -
  have pre: "length ([cls_token r] @ mem_token_ids r @ [sep_token r]) = num_mem_tokens r + 2"
    by (simp add: length_mem_token_ids)
  have tw: "takeWhile (\<lambda>x. x \<noteq> sep_token r) (t @ sep_token r # ys) = t" for ys
    using assms by (subst takeWhile_append2) auto
  have "drop (num_mem_tokens r + 2) (([cls_token r] @ mem_token_ids r @ [sep_token r]) @ t @ sep_token r # ys)
        = t @ sep_token r # ys" for ys
    using pre by (simp only: drop_append) simp
  then show ?thesis
    using tw [of "[]"] tw
    by (simp add: content_portion_def pad_add_special_tokens_def Let_def length_mem_token_ids)
qed

lemma ceil_div_nonpos: "b < 0 \<Longrightarrow> 0 \<le> a \<Longrightarrow> ceil_div a b \<le> 0"
  unfolding ceil_div_def
  by (simp add: div_nonpos_pos_le0 neg_imp_zdiv_nonneg_iff)

lemma chunk_sequence_Inr:
  assumes ok: "chunk_sequence r seq0 = Inr chunks"
  defines "seq \<equiv> slice_to (segment_size r * max_n_segments r) (strip_special r seq0)"
  shows "0 < segment_size r" and "seq \<noteq> []" and "concat chunks = seq"
    and "int (length chunks) = ceil_div (int (length seq)) (segment_size r)"
    and "\<forall>c \<in> set chunks. int (length c) \<le> segment_size r \<and> set c \<subseteq> set seq"
proof -
  let ?S = "segment_size r"
  let ?n = "ceil_div (int (length seq)) ?S"
  have S0: "?S \<noteq> 0" using ok by (auto simp: chunk_sequence_def Let_def split: if_splits)
  have tc: "torch_chunk seq ?n = Inr chunks"
    using ok S0 by (simp add: chunk_sequence_def Let_def seq_def)
  have npos: "0 < ?n" using tc by (auto simp: torch_chunk_def split: if_splits)
  show Spos: "0 < ?S"
  proof (rule ccontr)
    assume "\<not> 0 < ?S"
    with S0 have "?S < 0" by simp
    then have "?n \<le> 0" by (rule ceil_div_nonpos) simp
    with npos show False by simp
  qed
  define S' where "S' = nat ?S"
  have S': "?S = int S'" "0 < S'" using Spos by (simp_all add: S'_def)
  define L where "L = length seq"
  define n' where "n' = (L + S' - 1) div S'"
  have n: "?n = int n'" unfolding S' L_def [symmetric] n'_def by (rule ceil_div_nat) fact
  have n'pos: "0 < n'" using npos n by simp
  have Lpos: "0 < L"
  proof (rule ccontr)
    assume "\<not> 0 < L"
    then have "n' = 0" using S' by (simp add: n'_def)
    with n'pos show False by simp
  qed
  then show "seq \<noteq> []" by (auto simp: L_def)
  define c where "c = (L + n' - 1) div n'"
  have "int L + int n' - 1 = int (L + n' - 1)" using n'pos by linarith
  then have "(int L + int n' - 1) div int n' = int c"
    unfolding c_def by (simp only: zdiv_int)
  then have split: "(int (length seq) + ?n - 1) div ?n = int c"
    by (simp only: n L_def)
  have cc: "0 < c" "c \<le> S'" "(L + c - 1) div c = n'"
    using chunk_count [OF S'(2) Lpos] unfolding n'_def c_def by blast+
  have chunks: "chunks = torch_split seq c"
    using tc npos cc(1) Lpos
    by (simp add: torch_chunk_def split Let_def L_def del: of_nat_add)
  show "concat chunks = seq" unfolding chunks using cc(1) by (rule torch_split_concat)
  have "length chunks = n'"
    using cc(3) n'pos by (simp add: chunks torch_split_length L_def max_def)
  then show "int (length chunks) = ?n" using n by simp
  show "\<forall>c \<in> set chunks. int (length c) \<le> ?S \<and> set c \<subseteq> set seq"
  proof
    fix d assume d: "d \<in> set chunks"
    have "length d \<le> c" using d unfolding chunks by (rule torch_split_piece_le)
    then have "int (length d) \<le> ?S" using cc(2) S'(1) by simp
    moreover have "set d \<subseteq> set seq" using d unfolding chunks by (rule torch_split_piece_set)
    ultimately show "int (length d) \<le> ?S \<and> set d \<subseteq> set seq" ..
  qed
qed

lemma chunk_sequence_returns:
  assumes S: "0 < segment_size r" and M: "0 < max_n_segments r"
    and ne: "strip_special r seq0 \<noteq> []"
  shows "\<exists>chunks. chunk_sequence r seq0 = Inr chunks"
proof -
  let ?seq = "slice_to (segment_size r * max_n_segments r) (strip_special r seq0)"
  have "0 < segment_size r * max_n_segments r" using S M by simp
  then have "?seq \<noteq> []" using ne by (simp add: slice_to_def)
  then have L: "0 < length ?seq" by simp
  define S' where "S' = nat (segment_size r)"
  have S': "segment_size r = int S'" "0 < S'" using S by (simp_all add: S'_def)
  have "0 < (length ?seq + S' - 1) div S'" using S'(2) L by (rule cdiv_pos)
  then have "0 < ceil_div (int (length ?seq)) (segment_size r)"
    unfolding S'(1) ceil_div_nat [OF S'(2)] by simp
  then show ?thesis using S
    by (simp add: chunk_sequence_def torch_chunk_def Let_def)
qed

lemma segment_rows_Inr:
  "segment_rows r ids = Inr sb \<Longrightarrow>
   length sb = length ids \<and> (\<forall>b < length ids. segment_sequence r (ids ! b) = Inr (sb ! b))"
proof (induction ids arbitrary: sb)
  case Nil
  then show ?case by simp
next
  case (Cons seq rest)
  from Cons.prems obtain segs others where
    s: "segment_sequence r seq = Inr segs" and o: "segment_rows r rest = Inr others"
    and sb: "sb = segs # others"
    by (auto split: sum.splits)
  from Cons.IH [OF o] s sb show ?case by (auto simp: nth_Cons split: nat.splits)
qed

lemma segment_rows_returns:
  "(\<forall>seq \<in> set ids. \<exists>s. segment_sequence r seq = Inr s) \<Longrightarrow> \<exists>sb. segment_rows r ids = Inr sb"
  by (induction ids) auto

lemma n_seg_le:
  assumes ok: "chunk_sequence r seq0 = Inr chunks" and M: "0 \<le> max_n_segments r"
  shows "length chunks \<le> nat (max_n_segments r)"
proof -
  let ?seq = "slice_to (segment_size r * max_n_segments r) (strip_special r seq0)"
  note cs = chunk_sequence_Inr [OF ok]
  define S' where "S' = nat (segment_size r)"
  have S': "segment_size r = int S'" "0 < S'" using cs(1) by (simp_all add: S'_def)
  define m where "m = nat (max_n_segments r)"
  have m: "max_n_segments r = int m" using M by (simp add: m_def)
  have "nat (segment_size r * max_n_segments r) = m * S'"
    unfolding S'(1) m by (simp add: nat_mult_distrib mult.commute)
  then have "length ?seq \<le> m * S'" by (simp add: slice_to_def S'(1) m)
  then have "(length ?seq + S' - 1) div S' \<le> m" using cdiv_le_iff [OF S'(2)] by simp
  then have "ceil_div (int (length ?seq)) (segment_size r) \<le> int m"
    unfolding S'(1) ceil_div_nat [OF S'(2)] by simp
  with cs(4) show ?thesis unfolding m_def by linarith
qed

lemma pad_and_segment_column:
  assumes ok: "pad_and_segment r ids = Inr slots" and b: "b < length ids"
  obtains chunks where "chunk_sequence r (ids ! b) = Inr chunks"
    and "present (sequence_slots slots b) =
         drop (length chunks - nat (max_n_segments r))
              (map (\<lambda>t. pad_add_special_tokens r t (input_size r)) chunks)"
proof -
  from ok obtain sb where sb: "segment_rows r ids = Inr sb"
    and slots: "slots = right_align (max_n_segments r) sb"
    by (auto simp: pad_and_segment_def split: sum.splits)
  from segment_rows_Inr [OF sb] b have len: "length sb = length ids"
    and row: "segment_sequence r (ids ! b) = Inr (sb ! b)" by auto
  from row obtain chunks where ch: "chunk_sequence r (ids ! b) = Inr chunks"
    and w: "sb ! b = map (\<lambda>t. pad_add_special_tokens r t (input_size r)) chunks"
    by (auto simp: segment_sequence_def split: sum.splits)
  have "present (sequence_slots slots b) =
        drop (length (sb ! b) - nat (max_n_segments r)) (sb ! b)"
    unfolding slots using b len by (simp add: present_column)
  then have "present (sequence_slots slots b) =
         drop (length chunks - nat (max_n_segments r))
              (map (\<lambda>t. pad_add_special_tokens r t (input_size r)) chunks)"
    by (simp add: w)
  with ch show ?thesis by (rule that)
qed

lemma strip_special_no_sep: "sep_token r \<notin> set (strip_special r seq)"
  by (simp add: strip_special_def)

lemma slice_to_subset: "set (slice_to k xs) \<subseteq> set xs"
  by (auto simp: slice_to_def dest: in_set_takeD)

lemma length_slice_to:
  "0 \<le> k \<Longrightarrow> int (length (slice_to k xs)) = min (int (length xs)) k"
  unfolding slice_to_def by simp

subsection \<open>Round trip\<close>

text \<open>
  Claim C1. Whenever \<open>pad_and_segment\<close> returns, then for every row \<open>b\<close> of the batch the
  content portions of the non-absent slots of that row, concatenated in slot order, are the
  row with every pad, CLS and SEP id removed and cut to at most
  \<open>segment_size * max_n_segments\<close> tokens.
\<close>

theorem round_trip:
  assumes ok: "pad_and_segment r input_ids = Inr slots" and b: "b < length input_ids"
  shows "concat (map (content_portion r) (present (sequence_slots slots b))) =
         take (nat (segment_size r * max_n_segments r)) (strip_special r (input_ids ! b))"
proof -
  let ?w = "\<lambda>t. pad_add_special_tokens r t (input_size r)"
  let ?stripped = "strip_special r (input_ids ! b)"
  let ?seq = "slice_to (segment_size r * max_n_segments r) ?stripped"
  from ok b obtain chunks where ch: "chunk_sequence r (input_ids ! b) = Inr chunks"
    and col: "present (sequence_slots slots b) =
              drop (length chunks - nat (max_n_segments r)) (map ?w chunks)"
    by (rule pad_and_segment_column)
  note cs = chunk_sequence_Inr [OF ch]
  show ?thesis
  proof (cases "0 \<le> max_n_segments r")
    case True
    have "length chunks \<le> nat (max_n_segments r)" using ch True by (rule n_seg_le)
    then have col': "present (sequence_slots slots b) = map ?w chunks" using col by simp
    have "\<forall>c \<in> set chunks. content_portion r (?w c) = c"
    proof
      fix c assume "c \<in> set chunks"
      with cs(5) have "set c \<subseteq> set ?seq" by blast
      also have "\<dots> \<subseteq> set ?stripped" by (rule slice_to_subset)
      finally have "sep_token r \<notin> set c" using strip_special_no_sep [of r] by blast
      then show "content_portion r (?w c) = c" by (rule content_portion_wrap)
    qed
    then have "map (content_portion r) (map ?w chunks) = chunks"
      by (simp add: map_idI)
    then have "concat (map (content_portion r) (present (sequence_slots slots b))) = ?seq"
      using cs(3) by (simp only: col')
    moreover have "0 \<le> segment_size r * max_n_segments r" using cs(1) True by simp
    ultimately show ?thesis by (simp add: slice_to_def)
  next
    case False
    then have "nat (max_n_segments r) = 0" by simp
    then have "present (sequence_slots slots b) = []" using col by simp
    moreover have "segment_size r * max_n_segments r < 0"
      using cs(1) False by (simp add: mult_pos_neg)
    ultimately show ?thesis by simp
  qed
qed

theorem round_trip_witness:
  "pad_and_segment scenario_cfg [row_A, row_B] = Inr scenario_slots \<and>
   concat (map (content_portion scenario_cfg) (present (sequence_slots scenario_slots 0))) =
     [11, 12, 13, 14, 15, 16, 17, 18, 19, 20, 21, 22]"
proof -
  have ok: "pad_and_segment scenario_cfg [row_A, row_B] = Inr scenario_slots"
    by code_simp
  have b: "0 < length [row_A, row_B]" by simp
  have rhs: "take (nat (segment_size scenario_cfg * max_n_segments scenario_cfg))
       (strip_special scenario_cfg ([row_A, row_B] ! 0)) =
     [11, 12, 13, 14, 15, 16, 17, 18, 19, 20, 21, 22]"
    by code_simp
  show ?thesis using round_trip [OF ok b] ok rhs by simp
qed

subsection \<open>Number of slots a row uses\<close>

text \<open>
  A row without content tokens does not get zero slots: \<open>n_seg\<close> is then \<open>0\<close> and
  \<open>torch.chunk\<close> refuses it, so the whole call raises.
\<close>

theorem empty_row_raises:
  "length (strip_special scenario_cfg row_empty) = 0 \<and>
   pad_and_segment scenario_cfg [row_empty] = Inl ChunkError"
  by code_simp

text \<open>
  Claim C2, amended. When \<open>segment_size\<close> and \<open>max_n_segments\<close> are positive and every row
  of the batch has at least one content token, \<open>pad_and_segment\<close> returns
  \<open>max_n_segments\<close> slots, and a row with \<open>L\<close> content tokens has exactly
  \<open>ceil (min L (segment_size * max_n_segments) / segment_size)\<close> non-absent slots.
\<close>

theorem slot_count:
  assumes S: "0 < segment_size r" and M: "0 < max_n_segments r"
    and ne: "\<forall>seq \<in> set input_ids. strip_special r seq \<noteq> []"
  shows "\<exists>slots. pad_and_segment r input_ids = Inr slots \<and>
           length slots = nat (max_n_segments r) \<and>
           (\<forall>b < length input_ids.
              int (length (present (sequence_slots slots b))) =
              ceil_div (min (int (length (strip_special r (input_ids ! b))))
                            (segment_size r * max_n_segments r))
                       (segment_size r))"
proof -
  have "\<forall>seq \<in> set input_ids. \<exists>s. segment_sequence r seq = Inr s"
  proof
    fix seq assume "seq \<in> set input_ids"
    with ne have "strip_special r seq \<noteq> []" by blast
    with S M obtain chunks where "chunk_sequence r seq = Inr chunks"
      using chunk_sequence_returns by blast
    then show "\<exists>s. segment_sequence r seq = Inr s" by (simp add: segment_sequence_def)
  qed
  then obtain sb where sb: "segment_rows r input_ids = Inr sb"
    using segment_rows_returns by blast
  define slots where "slots = right_align (max_n_segments r) sb"
  have ok: "pad_and_segment r input_ids = Inr slots"
    by (simp add: pad_and_segment_def sb slots_def)
  have len: "length slots = nat (max_n_segments r)"
    by (simp add: slots_def right_align_def)
  have "int (length (present (sequence_slots slots b))) =
        ceil_div (min (int (length (strip_special r (input_ids ! b))))
                      (segment_size r * max_n_segments r)) (segment_size r)"
    if b: "b < length input_ids" for b
  proof -
    let ?stripped = "strip_special r (input_ids ! b)"
    let ?seq = "slice_to (segment_size r * max_n_segments r) ?stripped"
    from ok b obtain chunks where ch: "chunk_sequence r (input_ids ! b) = Inr chunks"
      and col: "present (sequence_slots slots b) =
                drop (length chunks - nat (max_n_segments r))
                     (map (\<lambda>t. pad_add_special_tokens r t (input_size r)) chunks)"
      by (rule pad_and_segment_column)
    note cs = chunk_sequence_Inr [OF ch]
    have "length chunks \<le> nat (max_n_segments r)" using ch M by (intro n_seg_le) simp_all
    then have "length (present (sequence_slots slots b)) = length chunks" using col by simp
    moreover have "0 \<le> segment_size r * max_n_segments r" using S M by simp
    then have "int (length ?seq) =
        min (int (length ?stripped)) (segment_size r * max_n_segments r)"
      by (rule length_slice_to)
    ultimately show ?thesis using cs(4) by simp
  qed
  with ok len show ?thesis by blast
qed

theorem slot_count_witness:
  "0 < segment_size scenario_cfg \<and> 0 < max_n_segments scenario_cfg \<and>
   strip_special scenario_cfg row_A \<noteq> [] \<and> strip_special scenario_cfg row_B \<noteq> [] \<and>
   length (present (sequence_slots scenario_slots 1)) = 1 \<and>
   ceil_div (min (int (length (strip_special scenario_cfg row_B)))
                 (segment_size scenario_cfg * max_n_segments scenario_cfg))
            (segment_size scenario_cfg) = 1"
proof -
  have S: "0 < segment_size scenario_cfg" and M: "0 < max_n_segments scenario_cfg"
    by code_simp+
  have A: "strip_special scenario_cfg row_A \<noteq> []" and B: "strip_special scenario_cfg row_B \<noteq> []"
    by code_simp+
  then have ne: "\<forall>seq \<in> set [row_A, row_B]. strip_special scenario_cfg seq \<noteq> []" by simp
  have ok: "pad_and_segment scenario_cfg [row_A, row_B] = Inr scenario_slots"
    by code_simp
  have c: "ceil_div (min (int (length (strip_special scenario_cfg row_B)))
                 (segment_size scenario_cfg * max_n_segments scenario_cfg))
            (segment_size scenario_cfg) = 1"
    by code_simp
  from slot_count [OF S M ne] ok
  have "int (length (present (sequence_slots scenario_slots 1))) =
     ceil_div (min (int (length (strip_special scenario_cfg ([row_A, row_B] ! 1))))
                   (segment_size scenario_cfg * max_n_segments scenario_cfg))
              (segment_size scenario_cfg)"
    by auto
  with c have "length (present (sequence_slots scenario_slots 1)) = 1"
    by simp
  with S M A B c show ?thesis by blast
qed

subsection \<open>The scenario of two rows with 12 and 3 content tokens\<close>

lemma upt_0_3: "[0 ..< 3] = [0, 1, 2::nat]"
  by code_simp

lemma chunk_12_by_5:
  assumes "segment_size r = 5" and "max_n_segments r = 3" and "length (strip_special r a) = 12"
  shows "chunk_sequence r a =
         Inr [take 4 (strip_special r a), take 4 (drop 4 (strip_special r a)),
              drop 8 (strip_special r a)]"
  using assms
  by (simp add: chunk_sequence_def slice_to_def ceil_div_def torch_chunk_def torch_split_def
      upt_0_3 Let_def)

lemma chunk_3_by_5:
  assumes "segment_size r = 5" and "max_n_segments r = 3" and "length (strip_special r b) = 3"
  shows "chunk_sequence r b = Inr [strip_special r b]"
  using assms
  by (simp add: chunk_sequence_def slice_to_def ceil_div_def torch_chunk_def torch_split_def
      Let_def)

text \<open>
  \<open>torch.chunk\<close> balances the pieces: 12 tokens in 3 chunks are cut into 4, 4 and 4 tokens,
  not into 5, 5 and 2.
\<close>

theorem scenario_balanced_chunks:
  "segment_size scenario_cfg = 5 \<and> length (strip_special scenario_cfg row_A) = 12 \<and>
   chunk_sequence scenario_cfg row_A =
     Inr [[11, 12, 13, 14], [15, 16, 17, 18], [19, 20, 21, 22]]"
  by code_simp

text \<open>
  Claim C4, amended. With \<open>segment_size = 5\<close> and \<open>max_n_segments = 3\<close>, for a batch of a row
  with 12 content tokens and a row with 3: the first row is split into three chunks of 4
  tokens each and the second into one chunk of 3; slots 0 and 1 hold a segment of the first
  row and nothing for the second, and slot 2 holds a segment of both.
\<close>

theorem scenario_chunks:
  assumes "segment_size r = 5" and "max_n_segments r = 3"
    and "length (strip_special r a) = 12" and "length (strip_special r b) = 3"
  shows "pad_and_segment r [a, b] = Inr
     [[Some (pad_add_special_tokens r (take 4 (strip_special r a)) (input_size r)), None],
      [Some (pad_add_special_tokens r (take 4 (drop 4 (strip_special r a))) (input_size r)), None],
      [Some (pad_add_special_tokens r (drop 8 (strip_special r a)) (input_size r)),
       Some (pad_add_special_tokens r (strip_special r b) (input_size r))]]"
  using assms(2)
  by (simp add: pad_and_segment_def segment_sequence_def chunk_12_by_5 [OF assms(1-3)]
      chunk_3_by_5 [OF assms(1,2,4)] right_align_def upt_0_3)

theorem scenario_chunks_witness:
  "segment_size scenario_cfg = 5 \<and> max_n_segments scenario_cfg = 3 \<and>
   length (strip_special scenario_cfg row_A) = 12 \<and>
   length (strip_special scenario_cfg row_B) = 3 \<and>
   pad_and_segment scenario_cfg [row_A, row_B] = Inr
     [[Some (pad_add_special_tokens scenario_cfg (take 4 (strip_special scenario_cfg row_A))
               (input_size scenario_cfg)), None],
      [Some (pad_add_special_tokens scenario_cfg (take 4 (drop 4 (strip_special scenario_cfg row_A)))
               (input_size scenario_cfg)), None],
      [Some (pad_add_special_tokens scenario_cfg (drop 8 (strip_special scenario_cfg row_A))
               (input_size scenario_cfg)),
       Some (pad_add_special_tokens scenario_cfg (strip_special scenario_cfg row_B)
               (input_size scenario_cfg))]]"
proof -
  have h1: "segment_size scenario_cfg = 5" and h2: "max_n_segments scenario_cfg = 3"
    by code_simp+
  have h3: "length (strip_special scenario_cfg row_A) = 12"
    and h4: "length (strip_special scenario_cfg row_B) = 3"
    by code_simp+
  show ?thesis using scenario_chunks [OF h1 h2 h3 h4] h1 h2 h3 h4 by blast
qed

subsection \<open>Right alignment by index arithmetic\<close>

text \<open>
  Claim C8. The double reversal of \<open>pad_and_segment\<close> gives the same slots as the direct
  index arithmetic \<open>right_align_spec\<close>: slot \<open>i\<close> of a row with \<open>n_seg\<close> segments is populated
  iff \<open>i \<ge> max_n_segments - n_seg\<close>, and then holds segment \<open>i - (max_n_segments - n_seg)\<close>.
\<close>

theorem pad_and_segment_direct_index:
  "pad_and_segment r input_ids =
     (case segment_rows r input_ids of
        Inl e \<Rightarrow> Inl e
      | Inr segmented_batch \<Rightarrow> Inr (right_align_spec (max_n_segments r) segmented_batch))"
  by (simp only: pad_and_segment_def right_align_refines)

subsection \<open>Segment assembly\<close>

text \<open>
  For a chunk that fits, the assembled segment is the prefix, the chunk, SEP and then zeros
  up to \<open>input_size\<close>.
\<close>

lemma pad_add_special_tokens_layout:
  assumes "int (length t) \<le> segment_size r"
  shows "pad_add_special_tokens r t (input_size r) =
         [cls_token r] @ mem_token_ids r @ [sep_token r] @ t @ [sep_token r] @
         replicate (nat (segment_size r) - length t) 0"
    and "int (length (pad_add_special_tokens r t (input_size r))) = input_size r"
proof -
  have "nat (input_size r - (3 + (int (num_mem_tokens r) + int (length t)))) =
        nat (segment_size r) - length t"
    using assms unfolding segment_size_def by linarith
  then show "pad_add_special_tokens r t (input_size r) =
         [cls_token r] @ mem_token_ids r @ [sep_token r] @ t @ [sep_token r] @
         replicate (nat (segment_size r) - length t) 0"
    using assms
    by (auto simp: pad_add_special_tokens_def Let_def length_mem_token_ids segment_size_def)
  then show "int (length (pad_add_special_tokens r t (input_size r))) = input_size r"
    using assms by (simp add: length_mem_token_ids segment_size_def)
qed

text \<open>
  The positions of \<open>memory_position\<close> hold the memory token ids, which lie above the
  vocabulary of the tokenizer.
\<close>

lemma memory_positions_hold_mem_ids:
  assumes "p \<in> set (memory_position r)"
  shows "pad_add_special_tokens r t w ! p = int (vocab_size r + (p - 1))"
proof -
  from assms have p: "1 \<le> p" "p - 1 < num_mem_tokens r"
    by (auto simp: memory_position_def)
  have "\<exists>rest. pad_add_special_tokens r t w = cls_token r # (mem_token_ids r @ rest)"
    by (simp add: pad_add_special_tokens_def Let_def)
  then obtain rest where "pad_add_special_tokens r t w = cls_token r # (mem_token_ids r @ rest)"
    by blast
  then have "pad_add_special_tokens r t w ! p = mem_token_ids r ! (p - 1)"
    using p by (cases p) (simp_all add: nth_append length_mem_token_ids)
  also have "\<dots> = int (vocab_size r + (p - 1))"
    using p(2) by (simp add: mem_token_ids_def)
  finally show ?thesis .
qed

lemma memory_positions_not_pad:
  assumes "p \<in> set (memory_position r)" and "pad_token_id r < int (vocab_size r)"
  shows "pad_add_special_tokens r t w ! p \<noteq> pad_token_id r"
  using memory_positions_hold_mem_ids [OF assms(1), of t w] assms(2) by simp

text \<open>
  Claim C3. The claim is that the segment is padded with \<open>pad_token_id\<close>. The code pads with
  the constant \<open>0\<close>: with the pad id \<open>1\<close> the two padding positions of the segment hold \<open>0\<close>
  (here the CLS id), and \<open>get_attention_mask\<close>, which looks for \<open>pad_token_id\<close>, leaves
  them attended.
\<close>

theorem pad_value_is_zero:
  "pad_add_special_tokens roberta_cfg [5, 6, 7] (input_size roberta_cfg) =
     [0, 200, 201, 2, 5, 6, 7, 2, 0, 0] \<and>
   get_attention_mask roberta_cfg [pad_add_special_tokens roberta_cfg [5, 6, 7] (input_size roberta_cfg)] =
     [[1, 1, 1, 1, 1, 1, 1, 1, 1, 1]]"
  by code_simp

section \<open>The forward pass\<close>

lemma seg_step_skip:
  assumes "list_all (\<lambda>s. s = None) slot"
  shows "seg_step r emb fwd labels n k st slot =
         Inr (if detach_now r n k then st\<lparr>detached := detached st @ [k]\<rparr> else st)"
proof -
  have "filter id (map (\<lambda>s. s \<noteq> None) slot) = []"
    using assms by (induction slot) auto
  then show ?thesis by (simp add: seg_step_def Let_def)
qed

lemma seg_step_Inr:
  assumes "seg_step r emb fwd labels n k st slot = Inr st'"
  shows "detached st' = detached st @ (if detach_now r n k then [k] else [])"
    and "(calls st' = calls st \<and> losses st' = losses st \<and> out st' = out st \<and>
          memory st' = memory st) \<or>
         (\<exists>res. calls st' = calls st @ [(k, res)] \<and> losses st' = losses st @ [loss res] \<and>
                out st' = Some res)"
  using assms
  by (auto simp: seg_step_def Let_def split: if_splits sum.splits)

lemma seg_step_consistent:
  assumes "seg_step r emb fwd labels n k st slot = Inr st'" and "consistent st"
  shows "consistent st'"
  using seg_step_Inr(2) [OF assms(1)] assms(2) by (auto simp: consistent_def)

lemma run_segments_consistent:
  "run_segments r emb fwd labels n k st slots = Inr st' \<Longrightarrow> consistent st \<Longrightarrow> consistent st'"
proof (induction slots arbitrary: k st)
  case Nil
  then show ?case by simp
next
  case (Cons slot slots)
  from Cons.prems(1) obtain st1 where
    s: "seg_step r emb fwd labels n k st slot = Inr st1"
    and r: "run_segments r emb fwd labels n (Suc k) st1 slots = Inr st'"
    by (auto split: sum.splits)
  from s Cons.prems(2) have "consistent st1" by (rule seg_step_consistent)
  with r show ?case by (rule Cons.IH)
qed

lemma run_segments_detached:
  "run_segments r emb fwd labels n k st slots = Inr st' \<Longrightarrow>
   detached st' = detached st @ filter (detach_now r n) [k ..< k + length slots]"
proof (induction slots arbitrary: k st)
  case Nil
  then show ?case by simp
next
  case (Cons slot slots)
  from Cons.prems obtain st1 where
    s: "seg_step r emb fwd labels n k st slot = Inr st1"
    and r: "run_segments r emb fwd labels n (Suc k) st1 slots = Inr st'"
    by (auto split: sum.splits)
  have "[k ..< k + length (slot # slots)] = k # [Suc k ..< Suc k + length slots]"
    using upt_conv_Cons [of k "k + Suc (length slots)"] by simp
  then show ?case using Cons.IH [OF r] seg_step_Inr(1) [OF s] by simp
qed

lemma init_state_consistent: "consistent (init_state r emb b)"
  by (simp add: consistent_def init_state_def)

lemma run_forward_Inr:
  assumes "run_forward r emb fwd ids labels = Inr st"
  obtains segmented where "pad_and_segment r ids = Inr segmented"
    and "run_segments r emb fwd labels (length segmented) 0
           (init_state r emb (length ids)) segmented = Inr st"
  using assms by (auto simp: run_forward_def split: sum.splits)

lemma pad_and_segment_length:
  "pad_and_segment r ids = Inr segmented \<Longrightarrow> length segmented = nat (max_n_segments r)"
  by (auto simp: pad_and_segment_def right_align_def split: sum.splits)


subsection \<open>Truncated backpropagation\<close>

text \<open>
  Claim C5. In a forward call that returns from its loop, \<open>memory.detach()\<close> runs at slot
  \<open>i\<close> exactly when \<open>bptt_depth \<ge> 0\<close> and the number of remaining slots,
  \<open>max_n_segments - i\<close>, exceeds \<open>bptt_depth\<close>: at every slot when \<open>bptt_depth = 0\<close>, at
  no slot when \<open>bptt_depth = -1\<close>. The detachment stands before the test for an empty slot,
  so it also runs at the slots that are skipped.
\<close>

theorem bptt_detach_schedule:
  assumes "run_forward r emb fwd ids labels = Inr st"
  shows "detached st =
           filter (\<lambda>i. 0 \<le> bptt_depth r \<and> bptt_depth r < int (nat (max_n_segments r)) - int i)
                  [0 ..< nat (max_n_segments r)] \<and>
         detached st =
           (if bptt_depth r = 0 then [0 ..< nat (max_n_segments r)]
            else if bptt_depth r = - 1 then []
            else filter (detach_now r (nat (max_n_segments r))) [0 ..< nat (max_n_segments r)])"
proof -
  from assms obtain segmented where ps: "pad_and_segment r ids = Inr segmented"
    and run: "run_segments r emb fwd labels (length segmented) 0
           (init_state r emb (length ids)) segmented = Inr st"
    by (rule run_forward_Inr)
  have len: "length segmented = nat (max_n_segments r)" using ps by (rule pad_and_segment_length)
  have d: "detached st = filter (detach_now r (nat (max_n_segments r))) [0 ..< nat (max_n_segments r)]"
    using run_segments_detached [OF run] by (simp add: len init_state_def)
  have c: "detach_now r (nat (max_n_segments r)) =
      (\<lambda>i. 0 \<le> bptt_depth r \<and> bptt_depth r < int (nat (max_n_segments r)) - int i)"
    by (auto simp: detach_now_def fun_eq_iff)
  have z: "bptt_depth r = 0 \<Longrightarrow> detached st = [0 ..< nat (max_n_segments r)]"
    unfolding d by (rule filter_True) (auto simp: detach_now_def)
  have m: "bptt_depth r = - 1 \<Longrightarrow> detached st = []"
    unfolding d by (simp add: detach_now_def)
  show ?thesis using d c z m by simp
qed


theorem bptt_detach_schedule_witness:
  "map_sum id detached
     (run_forward (scenario_cfg\<lparr>bptt_depth := 0\<rparr>) toy_embeddings toy_model [row_C, row_D] [0, 1])
     = Inr [0, 1, 2] \<and>
   map_sum id detached
     (run_forward scenario_cfg toy_embeddings toy_model [row_C, row_D] [0, 1]) = Inr []"
proof -
  let ?r0 = "scenario_cfg\<lparr>bptt_depth := 0\<rparr>"
  have "\<not> isl (run_forward ?r0 toy_embeddings toy_model [row_C, row_D] [0, 1])"
    by code_simp
  then obtain st0 where run0:
    "run_forward ?r0 toy_embeddings toy_model [row_C, row_D] [0, 1] = Inr st0"
    by (cases "run_forward ?r0 toy_embeddings toy_model [row_C, row_D] [0, 1]") auto
  have "\<not> isl (run_forward scenario_cfg toy_embeddings toy_model [row_C, row_D] [0, 1])"
    by code_simp
  then obtain st1 where run1:
    "run_forward scenario_cfg toy_embeddings toy_model [row_C, row_D] [0, 1] = Inr st1"
    by (cases "run_forward scenario_cfg toy_embeddings toy_model [row_C, row_D] [0, 1]") auto
  have "detached st0 = [0, 1, 2]"
    using bptt_detach_schedule [OF run0] by (simp add: scenario_cfg_def upt_0_3)
  moreover have "detached st1 = []"
    using bptt_detach_schedule [OF run1] by (simp add: scenario_cfg_def)
  ultimately show ?thesis by (simp add: run0 run1)
qed


subsection \<open>Losses\<close>

lemma loss_fields_nth:
  "loss_fields ops ls i = (if i < length ls then Some (tensor_mean ops (ls ! i)) else None)"
proof -
  define f where "f = (\<lambda>(i :: nat, l) fields. fields(i \<mapsto> tensor_mean ops l))"
  have step: "f (k, l) m = m(k \<mapsto> tensor_mean ops l)" for k l m
    by (simp add: f_def)
  have "fold f (enumerate k ls) m i =
        (if k \<le> i \<and> i < k + length ls then Some (tensor_mean ops (ls ! (i - k))) else m i)"
    for k m
  proof (induction ls arbitrary: k m)
    case Nil
    show ?case by auto
  next
    case (Cons l ls)
    have "fold f (enumerate k (l # ls)) m i =
          fold f (enumerate (Suc k) ls) (m(k \<mapsto> tensor_mean ops l)) i"
      by (simp add: step)
    also have "\<dots> = (if Suc k \<le> i \<and> i < Suc k + length ls
                      then Some (tensor_mean ops (ls ! (i - Suc k)))
                      else (m(k \<mapsto> tensor_mean ops l)) i)"
      by (rule Cons.IH)
    also have "\<dots> = (if k \<le> i \<and> i < k + length (l # ls)
                      then Some (tensor_mean ops ((l # ls) ! (i - k))) else m i)"
    proof (cases "i = k")
      case True
      then show ?thesis by simp
    next
      case False
      have "i - k = Suc (i - Suc k)" if "Suc k \<le> i" using that by simp
      then show ?thesis using False by (auto simp: nth_Cons)
    qed
    finally show ?case .
  qed
  from this [of 0 Map.empty] show ?thesis by (simp add: loss_fields_def f_def)
qed


text \<open>The encoder is called at the slots that hold a segment, in slot order.\<close>

lemma processed_slots_Cons:
  "processed_slots (slot # slots) =
     (if list_all (\<lambda>s. s = None) slot then [] else [0]) @ map Suc (processed_slots slots)"
proof -
  have "[0 ..< Suc (length slots)] = 0 # [Suc 0 ..< Suc (length slots)]"
    by (rule upt_conv_Cons) simp
  then have "[0 ..< length (slot # slots)] = 0 # map Suc [0 ..< length slots]"
    by (simp only: map_Suc_upt list.size(4) add_Suc_right add_0_right One_nat_def)
  then show ?thesis
    by (simp add: processed_slots_def filter_map comp_def)
qed

lemma seg_step_called_slots:
  assumes "seg_step r emb fwd labels n k st slot = Inr st'"
  shows "called_slots st' =
         called_slots st @ (if list_all (\<lambda>s. s = None) slot then [] else [k])"
proof -
  have e: "filter id (map (\<lambda>s. s \<noteq> None) slot) = [] \<longleftrightarrow> list_all (\<lambda>s. s = None) slot"
    by (induction slot) auto
  show ?thesis using assms e
    by (auto simp: seg_step_def called_slots_def Let_def split: if_splits sum.splits)
qed

lemma run_segments_called_slots:
  "run_segments r emb fwd labels n k st slots = Inr st' \<Longrightarrow>
   called_slots st' = called_slots st @ map (\<lambda>j. k + j) (processed_slots slots)"
proof (induction slots arbitrary: k st)
  case Nil
  then show ?case by (simp add: processed_slots_def)
next
  case (Cons slot slots)
  from Cons.prems obtain st1 where
    s: "seg_step r emb fwd labels n k st slot = Inr st1"
    and r: "run_segments r emb fwd labels n (Suc k) st1 slots = Inr st'"
    by (auto split: sum.splits)
  show ?case
    using Cons.IH [OF r] seg_step_called_slots [OF s]
    by (simp add: processed_slots_Cons comp_def)
qed

text \<open>
  The index of a field \<open>loss_i\<close> is not a slot number. For two rows of one segment each
  and three slots, slots 0 and 1 are skipped and slot 2 is processed; its loss is in the field
  \<open>loss_0\<close>, and there is no field \<open>loss_2\<close>.
\<close>

theorem loss_field_not_slot_indexed:
  "map_sum id called_slots
     (run_forward scenario_cfg toy_embeddings toy_model [row_B, row_B] [0, 1]) = Inr [2] \<and>
   loss_field (forward scenario_cfg toy_ops toy_embeddings toy_model [row_B, row_B] [0, 1] False) 2
     = Inr None \<and>
   loss_field (forward scenario_cfg toy_ops toy_embeddings toy_model [row_B, row_B] [0, 1] False) 0
     = Inr (Some 31)"
  by code_simp

text \<open>
  Claim C6, amended. With \<open>sum_loss\<close> set and at least one slot processed, the call returns;
  the encoder was called once for every slot that holds a segment, in slot order; the field
  \<open>loss\<close> is \<open>torch.stack(losses).sum(dim=0)\<close> of the losses of these calls, computed in the
  floating-point type of the losses; and the field \<open>loss_j\<close> exists exactly for \<open>j\<close> below the
  number of processed slots and is \<open>mean()\<close> of the loss of the \<open>j\<close>-th processed slot, where
  \<open>j\<close> counts the processed slots only.
\<close>

theorem sum_loss_aggregate:
  assumes seg: "pad_and_segment r ids = Inr segmented"
    and run: "run_forward r emb fwd ids labels = Inr st"
    and sum: "sum_loss r" and processed: "calls st \<noteq> []"
  shows "\<exists>res. forward r ops emb fwd ids labels ohs = Inr res \<and>
           called_slots st = processed_slots segmented \<and>
           out_loss res = stack_sum ops (map (\<lambda>c. loss (snd c)) (calls st)) \<and>
           (\<forall>j. out_loss_i res j =
                  (if j < length (calls st)
                   then Some (tensor_mean ops (loss (snd (calls st ! j))))
                   else None))"
proof -
  from run seg have rs:
    "run_segments r emb fwd labels (length segmented) 0
           (init_state r emb (length ids)) segmented = Inr st"
    by (simp add: run_forward_def)
  then have c: "consistent st" using init_state_consistent by (rule run_segments_consistent)
  then have l: "losses st = map (\<lambda>c. loss (snd c)) (calls st)"
    and o: "out st = Some (snd (last (calls st)))"
    using processed by (simp_all add: consistent_def)
  have cs: "called_slots st = processed_slots segmented"
    using run_segments_called_slots [OF rs] by (simp add: called_slots_def init_state_def)
  show ?thesis
    using processed sum cs
    by (simp add: forward_def run finalize_def o l loss_fields_nth)
qed

theorem sum_loss_aggregate_witness:
  "map_sum id called_slots
     (run_forward scenario_cfg toy_embeddings toy_model [row_C, row_D] [0, 1]) = Inr [0, 1, 2] \<and>
   map_sum id (\<lambda>res. (out_loss res, out_loss_i res 0, out_loss_i res 1, out_loss_i res 2,
                       out_loss_i res 3))
     (forward scenario_cfg toy_ops toy_embeddings toy_model [row_C, row_D] [0, 1] False)
     = Inr (6, Some 1, Some 2, Some 3, None)"
proof -
  have "\<not> isl (pad_and_segment scenario_cfg [row_C, row_D])"
    by code_simp
  then obtain segmented where seg: "pad_and_segment scenario_cfg [row_C, row_D] = Inr segmented"
    by (cases "pad_and_segment scenario_cfg [row_C, row_D]") auto
  have "\<not> isl (run_forward scenario_cfg toy_embeddings toy_model [row_C, row_D] [0, 1])"
    by code_simp
  then obtain st where run:
    "run_forward scenario_cfg toy_embeddings toy_model [row_C, row_D] [0, 1] = Inr st"
    by (cases "run_forward scenario_cfg toy_embeddings toy_model [row_C, row_D] [0, 1]") auto
  have "map_sum id call_losses
          (run_forward scenario_cfg toy_embeddings toy_model [row_C, row_D] [0, 1]) = Inr [1, 2, 3]"
    by code_simp
  then have l: "map (\<lambda>c. loss (snd c)) (calls st) = [1, 2, 3]"
    by (simp add: run call_losses_def)
  then have ne: "calls st \<noteq> []" by auto
  have len: "length (calls st) = 3" using arg_cong [OF l, of length] by simp
  have nth: "loss (snd (calls st ! i)) = [1, 2, 3] ! i" if "i < 3" for i
    using arg_cong [OF l, of "\<lambda>xs. xs ! i"] that len by simp
  have "map_sum id processed_slots (pad_and_segment scenario_cfg [row_C, row_D]) = Inr [0, 1, 2]"
    by code_simp
  then have ps: "processed_slots segmented = [0, 1, 2]" by (simp add: seg)
  have s: "sum_loss scenario_cfg" by (simp add: scenario_cfg_def)
  from sum_loss_aggregate [OF seg run s ne, where ops = toy_ops and ohs = False] obtain res where
    f: "forward scenario_cfg toy_ops toy_embeddings toy_model [row_C, row_D] [0, 1] False = Inr res"
    and cs: "called_slots st = processed_slots segmented"
    and a: "out_loss res = stack_sum toy_ops (map (\<lambda>c. loss (snd c)) (calls st))"
    and i: "\<forall>j. out_loss_i res j =
                  (if j < length (calls st)
                   then Some (tensor_mean toy_ops (loss (snd (calls st ! j))))
                   else None)"
    by blast
  have "out_loss res = 6" using a l by (simp add: toy_ops_def)
  moreover have "out_loss_i res 0 = Some 1" "out_loss_i res 1 = Some 2" "out_loss_i res 2 = Some 3"
    "out_loss_i res 3 = None"
    using i len nth [of 0] nth [of 1] nth [of 2] by (simp_all add: toy_ops_def)
  moreover have "called_slots st = [0, 1, 2]" using cs ps by simp
  ultimately show ?thesis by (simp add: f run)
qed

text \<open>
  Claim C10. With \<open>sum_loss\<close> not set and at least one slot processed, the call returns and
  the field \<open>loss\<close> is the loss of the last call of the encoder; the losses of the earlier
  calls are in the fields \<open>loss_i\<close> only.
\<close>

theorem last_segment_loss:
  assumes run: "run_forward r emb fwd ids labels = Inr st"
    and nosum: "\<not> sum_loss r" and processed: "calls st \<noteq> []"
  shows "\<exists>res. forward r ops emb fwd ids labels ohs = Inr res \<and>
           out_loss res = loss (snd (last (calls st))) \<and>
           (\<forall>i. out_loss_i res i =
                  (if i < length (calls st) then Some (tensor_mean ops (loss (snd (calls st ! i))))
                   else None))"
proof -
  from run obtain segmented where
    "run_segments r emb fwd labels (length segmented) 0
           (init_state r emb (length ids)) segmented = Inr st"
    by (rule run_forward_Inr)
  then have c: "consistent st" using init_state_consistent by (rule run_segments_consistent)
  then have l: "losses st = map (\<lambda>c. loss (snd c)) (calls st)"
    and o: "out st = Some (snd (last (calls st)))"
    using processed by (simp_all add: consistent_def)
  show ?thesis
    using processed nosum
    by (simp add: forward_def run finalize_def o l loss_fields_nth)
qed


theorem last_segment_loss_witness:
  "map_sum id (\<lambda>res. (out_loss res, out_loss_i res 0, out_loss_i res 1, out_loss_i res 2,
                       out_loss_i res 3))
     (forward (scenario_cfg\<lparr>sum_loss := False\<rparr>) toy_ops toy_embeddings toy_model [row_C, row_D] [0, 1] False)
     = Inr (3, Some 1, Some 2, Some 3, None)"
proof -
  let ?r = "scenario_cfg\<lparr>sum_loss := False\<rparr>"
  have "\<not> isl (run_forward ?r toy_embeddings toy_model [row_C, row_D] [0, 1])"
    by code_simp
  then obtain st where run:
    "run_forward ?r toy_embeddings toy_model [row_C, row_D] [0, 1] = Inr st"
    by (cases "run_forward ?r toy_embeddings toy_model [row_C, row_D] [0, 1]") auto
  have "map_sum id call_losses
          (run_forward ?r toy_embeddings toy_model [row_C, row_D] [0, 1]) = Inr [1, 2, 3]"
    by code_simp
  then have l: "map (\<lambda>c. loss (snd c)) (calls st) = [1, 2, 3]"
    by (simp add: run call_losses_def)
  then have ne: "calls st \<noteq> []" by auto
  have len: "length (calls st) = 3" using arg_cong [OF l, of length] by simp
  have nth: "loss (snd (calls st ! i)) = [1, 2, 3] ! i" if "i < 3" for i
    using arg_cong [OF l, of "\<lambda>xs. xs ! i"] that len by simp
  have lst: "loss (snd (last (calls st))) = 3"
    using nth [of 2] ne len by (simp add: last_conv_nth)
  have s: "\<not> sum_loss ?r" by simp
  from last_segment_loss [OF run s ne, where ops = toy_ops and ohs = False] obtain res where
    f: "forward ?r toy_ops toy_embeddings toy_model [row_C, row_D] [0, 1] False = Inr res"
    and a: "out_loss res = loss (snd (last (calls st)))"
    and i: "\<forall>i. out_loss_i res i =
                  (if i < length (calls st) then Some (tensor_mean toy_ops (loss (snd (calls st ! i))))
                   else None)"
    by blast
  have "out_loss res = 3" using a lst by simp
  moreover have "out_loss_i res 0 = Some 1" "out_loss_i res 1 = Some 2" "out_loss_i res 2 = Some 3"
    "out_loss_i res 3 = None"
    using i len nth [of 0] nth [of 1] nth [of 2] by (simp_all add: toy_ops_def)
  ultimately show ?thesis by (simp add: f)
qed


subsection \<open>Slots with no segment\<close>

text \<open>
  Claim C9. A slot in which no row has a segment is skipped: the step returns without an
  error, the encoder is not called, no loss is recorded (so no field \<open>loss_i\<close> comes from
  it), and \<open>out\<close> and the memory are as before. Only the detachment of line 55, which
  stands before the test, may have run.
\<close>

theorem empty_slot_skipped:
  assumes "\<forall>s \<in> set slot. s = None"
  shows "\<exists>st'. seg_step r emb fwd labels n k st slot = Inr st' \<and>
           calls st' = calls st \<and> losses st' = losses st \<and> out st' = out st \<and>
           memory st' = memory st \<and>
           detached st' = detached st @ (if detach_now r n k then [k] else [])"
  using seg_step_skip [of slot r emb fwd labels n k st] assms
  by (simp add: list_all_iff)


theorem empty_slot_skipped_witness:
  "seg_step scenario_cfg toy_embeddings toy_model [0, 1] 3 0
     (init_state scenario_cfg toy_embeddings 2) [None, None] =
   Inr (init_state scenario_cfg toy_embeddings 2)"
proof -
  have h: "\<forall>s \<in> set [None, None :: int list option]. s = None" by simp
  have d: "\<not> detach_now scenario_cfg 3 0" by (simp add: detach_now_def scenario_cfg_def)
  from empty_slot_skipped [OF h, of scenario_cfg toy_embeddings toy_model "[0, 1]" 3 0
      "init_state scenario_cfg toy_embeddings 2"] d
  show ?thesis by auto
qed

subsection \<open>Slots with a segment for some rows only\<close>

text \<open>
  \<open>torch.stack(segment_input_ids)\<close> is applied to the whole slot, before the mask selects the
  rows that are present. A slot that holds both a segment and \<open>None\<close> therefore raises.
\<close>

lemma partial_slot_raises:
  assumes "None \<in> set slot" and "Some s \<in> set slot"
  shows "seg_step r emb fwd labels n k st slot = Inl StackTypeError"
proof -
  have "filter id (map (\<lambda>s. s \<noteq> None) slot) \<noteq> []"
    using assms(2) by (auto simp: filter_empty_conv)
  moreover have "slot \<noteq> []" using assms(1) by auto
  ultimately show ?thesis using assms(1)
    by (simp add: seg_step_def Let_def torch_stack_def)
qed


text \<open>
  Claim C7. The claim is that a slot is processed with the memory rows of the rows without
  a segment left as they were. On the batch of the scenario (three segments for the first
  row, one for the second) the first slot holds a segment and \<open>None\<close>, and the call raises
  there, whatever the embedding table, the encoder and the labels are.
\<close>

theorem forward_partial_slot_raises:
  "forward scenario_cfg ops emb fwd [row_A, row_B] labels ohs = Inl StackTypeError"
proof -
  have ok: "pad_and_segment scenario_cfg [row_A, row_B] = Inr scenario_slots"
    by code_simp
  have "seg_step scenario_cfg emb fwd labels n 0 st
          [Some [101, 200, 201, 102, 11, 12, 13, 14, 102, 0], None] = Inl StackTypeError"
    for n st
    by (rule partial_slot_raises [where s = "[101, 200, 201, 102, 11, 12, 13, 14, 102, 0]"])
       simp_all
  then show ?thesis
    by (simp add: forward_def run_forward_def ok scenario_slots_def)
qed

text \<open>
  What does hold of the memory: a step that returns leaves its shape as it was, and a masked
  assignment leaves the rows outside the mask as they were. A step that calls the encoder
  has a slot without \<open>None\<close>, so it overwrites every row.
\<close>

lemma scatter_kept:
  "length keep = length t \<Longrightarrow> i < length t \<Longrightarrow> \<not> keep ! i \<Longrightarrow> scatter keep t vals ! i = t ! i"
proof (induction keep t vals arbitrary: i rule: scatter.induct)
  case (1 keep x xs v vs)
  then show ?case by (cases i) auto
next
  case (2 keep x xs vs)
  then show ?case by (cases i) auto
qed auto

lemma scatter_shape:
  "length keep = length t \<Longrightarrow> map f vals = map f (map snd (filter fst (zip keep t))) \<Longrightarrow>
   map f (scatter keep t vals) = map f t"
proof (induction keep t vals rule: scatter.induct)
  case (1 keep x xs v vs)
  then show ?case by auto
next
  case (2 keep x xs vs)
  then show ?case by auto
qed auto

lemma masked_assign_shape:
  "masked_assign keep t vals = Inr t' \<Longrightarrow> map (map length) t' = map (map length) t"
  by (auto simp: masked_assign_def masked_select_def scatter_shape split: sum.splits if_splits)

lemma seg_step_memory_shape:
  assumes "seg_step r emb fwd labels n k st slot = Inr st'"
  shows "map (map length) (memory st') = map (map length) (memory st)"
  using assms
  by (auto simp: seg_step_def Let_def split: if_splits sum.splits dest: masked_assign_shape)

lemma run_segments_memory_shape:
  "run_segments r emb fwd labels n k st slots = Inr st' \<Longrightarrow>
   map (map length) (memory st') = map (map length) (memory st)"
proof (induction slots arbitrary: k st)
  case Nil
  then show ?case by simp
next
  case (Cons slot slots)
  from Cons.prems obtain st1 where
    s: "seg_step r emb fwd labels n k st slot = Inr st1"
    and r: "run_segments r emb fwd labels n (Suc k) st1 slots = Inr st'"
    by (auto split: sum.splits)
  show ?case using Cons.IH [OF r] seg_step_memory_shape [OF s] by simp
qed

lemma processed_slot_is_full:
  assumes "seg_step r emb fwd labels n k st slot = Inr st'" and "calls st' \<noteq> calls st"
  shows "None \<notin> set slot"
  using assms
  by (auto simp: seg_step_def Let_def torch_stack_def split: if_splits sum.splits)

end
